theory Spec2Isabelle
  imports Main "HOL-Library.Char_ord" "HOL-Library.List_Lexorder" "HOL-Library.Multiset"
begin

section \<open>autobackup: retention of timestamped snapshots\<close>

text \<open>
  The development embeds the exported cells of \<^verbatim>\<open>nbs/00_core.ipynb\<close>:
  \<^verbatim>\<open>create_backup\<close>, \<^verbatim>\<open>clean_dates\<close> and \<^verbatim>\<open>run_backup\<close>, together with the part of
  Python's \<^verbatim>\<open>datetime\<close> they rely on. Python integers are \<open>int\<close>, Python strings are
  \<open>string\<close> ordered lexicographically by character code, exceptions are values of a sum
  type, and the in-place \<^verbatim>\<open>dates.sort()\<close> is returned as the new content of the argument.
\<close>

subsection \<open>Exceptions\<close>

datatype exn = ValueError | FileNotFoundError | FileExistsError | OSError

subsection \<open>Naive \<^verbatim>\<open>datetime\<close> values and their difference in days\<close>

record datetime =
  year :: int
  month :: int
  day :: int
  hour :: int
  minute :: int
  second :: int
  microsecond :: int

text \<open>\<^verbatim>\<open>_is_leap\<close>, \<^verbatim>\<open>_days_before_year\<close>, \<^verbatim>\<open>_days_in_month\<close>, \<^verbatim>\<open>_days_before_month\<close> and
  \<^verbatim>\<open>_ymd2ord\<close> of the proleptic Gregorian calendar, as \<^verbatim>\<open>datetime.toordinal\<close> uses them.\<close>

definition is_leap :: "int \<Rightarrow> bool" where
  "is_leap y \<longleftrightarrow> y mod 4 = 0 \<and> (y mod 100 \<noteq> 0 \<or> y mod 400 = 0)"

definition days_before_year :: "int \<Rightarrow> int" where
  "days_before_year y = (y - 1) * 365 + (y - 1) div 4 - (y - 1) div 100 + (y - 1) div 400"

definition days_in_month :: "int \<Rightarrow> int \<Rightarrow> int" where
  "days_in_month y m =
     (if m = 2 then (if is_leap y then 29 else 28)
      else if m = 4 \<or> m = 6 \<or> m = 9 \<or> m = 11 then 30
      else 31)"

definition days_before_month :: "int \<Rightarrow> int \<Rightarrow> int" where
  "days_before_month y m =
     (if m = 1 then 0 else if m = 2 then 31 else if m = 3 then 59
      else if m = 4 then 90 else if m = 5 then 120 else if m = 6 then 151
      else if m = 7 then 181 else if m = 8 then 212 else if m = 9 then 243
      else if m = 10 then 273 else if m = 11 then 304 else 334)
     + (if m > 2 \<and> is_leap y then 1 else 0)"

definition ymd2ord :: "int \<Rightarrow> int \<Rightarrow> int \<Rightarrow> int" where
  "ymd2ord y m d = days_before_year y + days_before_month y m + d"

definition toordinal :: "datetime \<Rightarrow> int" where
  "toordinal t = ymd2ord (year t) (month t) (day t)"

text \<open>The instant of a datetime in microseconds since the start of ordinal day 0; a
  datetime is chronologically earlier than another when its instant is smaller.\<close>

definition instant :: "datetime \<Rightarrow> int" where
  "instant t =
     (toordinal t * 86400 + (hour t * 3600 + minute t * 60 + second t)) * 1000000
       + microsecond t"

text \<open>\<^verbatim>\<open>(a - b).days\<close>: the difference is normalised by \<^verbatim>\<open>timedelta\<close> so that seconds and
  microseconds are non-negative, hence \<^verbatim>\<open>days\<close> is the floor of the difference in days
  (one second before \<open>b\<close> gives \<open>- 1\<close>).\<close>

definition sub_days :: "datetime \<Rightarrow> datetime \<Rightarrow> int" where
  "sub_days a b = (instant a - instant b) div 86400000000"

subsection \<open>\<^verbatim>\<open>datetime.strptime(d, '%Y%m%d_%H%M%S')\<close>\<close>

definition is_digit :: "char \<Rightarrow> bool" where
  "is_digit c \<longleftrightarrow> CHR ''0'' \<le> c \<and> c \<le> CHR ''9''"

definition digit_val :: "char \<Rightarrow> int" where
  "digit_val c = int (of_char c) - 48"

definition num :: "string \<Rightarrow> int" where
  "num cs = foldl (\<lambda>n c. 10 * n + digit_val c) 0 cs"

text \<open>The identifiers the program writes are fixed-width and zero-padded: four digits of
  year, two each of month and day, an underscore, two each of hour, minute and second.
  On such a string the parse succeeds when the fields form a date and time that
  \<^verbatim>\<open>datetime\<close> accepts, and raises \<^verbatim>\<open>ValueError\<close> otherwise. The library also accepts some
  strings with fields that are not zero-padded; the embedding treats every string that is
  not of the fixed-width shape as a \<^verbatim>\<open>ValueError\<close>, and the theorems below speak of
  well-formed identifiers only.\<close>

fun strptime :: "string \<Rightarrow> exn + datetime" where
  "strptime [y1, y2, y3, y4, m1, m2, d1, d2, u, h1, h2, n1, n2, s1, s2] =
     (let y = num [y1, y2, y3, y4]; m = num [m1, m2]; d = num [d1, d2];
          h = num [h1, h2]; n = num [n1, n2]; s = num [s1, s2]
      in if list_all is_digit [y1, y2, y3, y4, m1, m2, d1, d2, h1, h2, n1, n2, s1, s2]
            \<and> u = CHR ''_''
            \<and> 1 \<le> y \<and> 1 \<le> m \<and> m \<le> 12 \<and> 1 \<le> d \<and> d \<le> days_in_month y m
            \<and> h \<le> 23 \<and> n \<le> 59 \<and> s \<le> 59
         then Inr \<lparr>year = y, month = m, day = d, hour = h, minute = n, second = s,
                   microsecond = 0\<rparr>
         else Inl ValueError)"
| "strptime _ = Inl ValueError"

definition well_formed :: "string \<Rightarrow> bool" where
  "well_formed d \<longleftrightarrow> (case strptime d of Inl _ \<Rightarrow> False | Inr _ \<Rightarrow> True)"

subsection \<open>\<^verbatim>\<open>clean_dates\<close>\<close>

text \<open>The list comprehension
  \<^verbatim>\<open>[d for d in dates if (now - datetime.strptime(d, ...)).days < max_age]\<close>;
  the first identifier that does not parse raises.\<close>

fun lt_max :: "datetime \<Rightarrow> int \<Rightarrow> string list \<Rightarrow> exn + string list" where
  "lt_max now max_age [] = Inr []"
| "lt_max now max_age (d # dates) =
     (case strptime d of
        Inl e \<Rightarrow> Inl e
      | Inr t \<Rightarrow>
          (case lt_max now max_age dates of
             Inl e \<Rightarrow> Inl e
           | Inr r \<Rightarrow> Inr (if sub_days now t < max_age then d # r else r)))"

text \<open>The loop over \<^verbatim>\<open>max_ages\<close>, with \<^verbatim>\<open>clean\<close> as the accumulator.\<close>

fun buckets :: "datetime \<Rightarrow> string list \<Rightarrow> int list \<Rightarrow> string list \<Rightarrow> exn + string list" where
  "buckets now dates [] clean = Inr clean"
| "buckets now dates (max_age # max_ages) clean =
     (case lt_max now max_age dates of
        Inl e \<Rightarrow> Inl e
      | Inr [] \<Rightarrow> buckets now dates max_ages clean
      | Inr (d # _) \<Rightarrow> buckets now dates max_ages (clean @ [d]))"

text \<open>\<^verbatim>\<open>dates[-5:]\<close>: the last five elements, or the whole list when it is shorter.\<close>

definition newest5 :: "string list \<Rightarrow> string list" where
  "newest5 dates = drop (length dates - 5) dates"

text \<open>\<^verbatim>\<open>now = now or datetime.now()\<close>: the reference time is the argument when it is given
  (a datetime is never false), and the reading \<open>wall\<close> of the clock otherwise.\<close>

definition effective_now :: "datetime \<Rightarrow> datetime option \<Rightarrow> datetime" where
  "effective_now wall now = (case now of None \<Rightarrow> wall | Some n \<Rightarrow> n)"

text \<open>\<^verbatim>\<open>clean_dates(dates, now=None, max_ages=(2, 14, 60))\<close>. The first argument \<open>wall\<close>
  is what \<^verbatim>\<open>datetime.now()\<close> returns when the function reads it, which it does exactly when
  \<open>now\<close> is \<open>None\<close>. The result is a pair: the content of the list \<open>dates\<close> after the
  call (it is sorted in place before anything else happens, so also when the call
  raises), and either the exception or the returned list.\<close>

definition clean_dates ::
  "datetime \<Rightarrow> string list \<Rightarrow> datetime option \<Rightarrow> int list \<Rightarrow> string list \<times> (exn + string list)" where
  "clean_dates wall dates now max_ages =
     (let now' = effective_now wall now;
          dates' = sort dates
      in (dates',
          case buckets now' dates' max_ages [] of
            Inl e \<Rightarrow> Inl e
          | Inr clean \<Rightarrow> Inr (sort (remdups (clean @ newest5 dates')))))"

text \<open>Notions used to state the properties of \<^verbatim>\<open>clean_dates\<close>: the chronological
  position of an identifier (the instant it parses to), its age in days as the code
  computes it, \<^verbatim>\<open>(now - datetime.strptime(d, ...)).days\<close>, the identifiers young enough
  for a threshold, and the chronologically earliest members of a set of identifiers.\<close>

definition stamp :: "string \<Rightarrow> int" where
  "stamp d = (case strptime d of Inl _ \<Rightarrow> 0 | Inr t \<Rightarrow> instant t)"

definition age_days :: "datetime \<Rightarrow> string \<Rightarrow> int" where
  "age_days now d = (case strptime d of Inl _ \<Rightarrow> 0 | Inr t \<Rightarrow> sub_days now t)"

definition qualifying :: "datetime \<Rightarrow> int \<Rightarrow> string list \<Rightarrow> string list" where
  "qualifying now a dates = filter (\<lambda>d. age_days now d < a) dates"

definition earliest :: "string set \<Rightarrow> string set" where
  "earliest Q = {m \<in> Q. \<forall>q \<in> Q. stamp m \<le> stamp q}"

text \<open>The \<open>k\<close> chronologically latest identifiers of a set: those with fewer than \<open>k\<close>
  later ones.\<close>

definition latest :: "nat \<Rightarrow> string set \<Rightarrow> string set" where
  "latest k S = {d \<in> S. card {e \<in> S. stamp d < stamp e} < k}"

text \<open>The age of an identifier in the words of the specification: the difference
  \<open>now - parsed timestamp\<close> \<^emph>\<open>truncated\<close> to whole days, that is rounded towards zero.
  It agrees with \<open>age_days\<close> whenever the identifier is not later than \<open>now\<close>.\<close>

definition trunc_div :: "int \<Rightarrow> int \<Rightarrow> int" where
  "trunc_div a b = (if 0 \<le> a then a div b else - ((- a) div b))"

definition spec_age :: "datetime \<Rightarrow> string \<Rightarrow> int" where
  "spec_age now d =
     (case strptime d of Inl _ \<Rightarrow> 0 | Inr t \<Rightarrow> trunc_div (instant now - instant t) 86400000000)"

definition spec_qualifying :: "datetime \<Rightarrow> int \<Rightarrow> string list \<Rightarrow> string list" where
  "spec_qualifying now a dates = filter (\<lambda>d. spec_age now d < a) dates"

text \<open>The simulation of the notebook: each step appends one new identifier and replaces
  the list by what \<^verbatim>\<open>clean_dates\<close> returns for it at that step's \<open>now\<close>:
  \<^verbatim>\<open>test_dates.append(new); test_dates = clean_dates(test_dates, now)\<close>. The new
  identifier and the time of each step are arbitrary here.\<close>

fun simulate ::
  "datetime \<Rightarrow> string list \<Rightarrow> int list \<Rightarrow> (string \<times> datetime) list \<Rightarrow> exn + string list" where
  "simulate wall dates max_ages [] = Inr dates"
| "simulate wall dates max_ages ((new, now) # steps) =
     (case snd (clean_dates wall (dates @ [new]) (Some now) max_ages) of
        Inl e \<Rightarrow> Inl e
      | Inr kept \<Rightarrow> simulate wall kept max_ages steps)"

text \<open>The concrete scenario of the specification: the identifiers, the reference time,
  the list the call is expected to return, and a later reading of the clock.\<close>

definition scenario_ids :: "string list" where
  "scenario_ids =
     [''20240916_130322'', ''20241101_140322'', ''20241113_140322'', ''20241115_080322'',
      ''20241115_090322'', ''20241115_100322'', ''20241115_110322'', ''20241115_130322'']"

definition scenario_now :: datetime where
  "scenario_now = \<lparr>year = 2024, month = 11, day = 15, hour = 14, minute = 3, second = 22,
                    microsecond = 0\<rparr>"

definition scenario_kept :: "string list" where
  "scenario_kept =
     [''20241101_140322'', ''20241113_140322'', ''20241115_080322'', ''20241115_090322'',
      ''20241115_100322'', ''20241115_110322'', ''20241115_130322'']"

definition scenario_later :: datetime where
  "scenario_later = \<lparr>year = 2025, month = 6, day = 1, hour = 0, minute = 0, second = 0,
                      microsecond = 0\<rparr>"

text \<open>Six identifiers within a few seconds after the scenario's reference time, and three
  steps of the simulation that follow the scenario.\<close>

definition future_ids :: "string list" where
  "future_ids =
     [''20241115_140323'', ''20241115_140324'', ''20241115_140325'', ''20241115_140326'',
      ''20241115_140327'', ''20241115_140328'']"

definition scenario_steps :: "(string \<times> datetime) list" where
  "scenario_steps =
     [(''20241115_140322'', scenario_now),
      (''20241115_150322'', scenario_now\<lparr>hour := 15\<rparr>),
      (''20250601_000000'', scenario_later)]"

subsection \<open>The world of \<^verbatim>\<open>run_backup\<close>: clock, destination directory, log\<close>

text \<open>\<^verbatim>\<open>strftime("%Y%m%d_%H%M%S")\<close> for years of four digits.\<close>

definition digit_char :: "int \<Rightarrow> char" where
  "digit_char n = char_of (48 + nat (n mod 10))"

definition pad2 :: "int \<Rightarrow> string" where
  "pad2 n = [digit_char (n div 10), digit_char n]"

definition pad4 :: "int \<Rightarrow> string" where
  "pad4 n = [digit_char (n div 1000), digit_char (n div 100), digit_char (n div 10), digit_char n]"

definition strftime :: "datetime \<Rightarrow> string" where
  "strftime t =
     pad4 (year t) @ pad2 (month t) @ pad2 (day t) @ ''_'' @ pad2 (hour t) @ pad2 (minute t)
       @ pad2 (second t)"

datatype src_kind = SrcFile | SrcDir | SrcMissing

datatype fault = NoFault | MkdirFails | CopyFails

datatype log_entry = Backup_created | Removed_old_backup string | Backup_failed exn

text \<open>The part of the environment a run touches. \<open>clock\<close> gives the successive readings
  of \<^verbatim>\<open>datetime.now()\<close> and \<open>reads\<close> counts them; \<open>src\<close> says what the source path is;
  \<open>entries\<close> are the children of the destination directory in the order
  \<^verbatim>\<open>iterdir\<close> yields them, each with its \<^verbatim>\<open>is_dir\<close> flag; \<open>fault\<close> says whether writing
  the new snapshot fails, before or after its directory exists; \<open>held\<close> are the names
  whose removal fails (permission denied, busy); \<open>log\<close> is the log file.\<close>

record world =
  clock :: "nat \<Rightarrow> datetime"
  reads :: nat
  src :: src_kind
  entries :: "(string \<times> bool) list"
  fault :: fault
  held :: "string list"
  log :: "log_entry list"

definition datetime_now :: "world \<Rightarrow> datetime \<times> world" where
  "datetime_now w = (clock w (reads w), w\<lparr>reads := Suc (reads w)\<rparr>)"

definition logging :: "log_entry \<Rightarrow> world \<Rightarrow> world" where
  "logging l w = w\<lparr>log := log w @ [l]\<rparr>"

text \<open>\<^verbatim>\<open>create_backup(src, dest_dir)\<close>. A source that is a file is copied into the directory
  \<open>dest_dir/timestamp\<close>, made with \<^verbatim>\<open>exist_ok=True\<close>; anything else goes to
  \<^verbatim>\<open>shutil.copytree\<close>, which raises when the source is missing or the target exists. A
  copy that fails after the directory was made leaves the directory behind.\<close>

definition create_backup :: "world \<Rightarrow> exn option \<times> world" where
  "create_backup w =
     (let (t, w1) = datetime_now w;
          timestamp = strftime t;
          made = w1\<lparr>entries := entries w1 @ [(timestamp, True)]\<rparr>
      in if src w1 = SrcFile then
           (if (timestamp, False) \<in> set (entries w1) then (Some FileExistsError, w1)
            else if (timestamp, True) \<in> set (entries w1) then
              (if fault w1 = CopyFails then (Some OSError, w1) else (None, w1))
            else if fault w1 = MkdirFails then (Some OSError, w1)
            else if fault w1 = CopyFails then (Some OSError, made)
            else (None, made))
         else
           (if src w1 = SrcMissing then (Some FileNotFoundError, w1)
            else if timestamp \<in> fst ` set (entries w1) then (Some FileExistsError, w1)
            else if fault w1 = MkdirFails then (Some OSError, w1)
            else if fault w1 = CopyFails then (Some OSError, made)
            else (None, made)))"

text \<open>\<^verbatim>\<open>shutil.rmtree(Path(dest) / backup)\<close>: it raises when there is no such entry or
  when the entry is held, and removes the entry otherwise.\<close>

definition rmtree :: "string \<Rightarrow> world \<Rightarrow> exn option \<times> world" where
  "rmtree backup w =
     (if backup \<notin> fst ` set (entries w) then (Some FileNotFoundError, w)
      else if backup \<in> set (held w) then (Some OSError, w)
      else (None, w\<lparr>entries := filter (\<lambda>(name, _). name \<noteq> backup) (entries w)\<rparr>))"

text \<open>The loop \<^verbatim>\<open>for backup in backups: if backup not in to_keep: ...\<close>; an exception
  of \<^verbatim>\<open>rmtree\<close> leaves the loop.\<close>

fun remove_old :: "string list \<Rightarrow> string list \<Rightarrow> world \<Rightarrow> exn option \<times> world" where
  "remove_old [] to_keep w = (None, w)"
| "remove_old (backup # backups) to_keep w =
     (if backup \<notin> set to_keep then
        (case rmtree backup w of
           (Some e, w') \<Rightarrow> (Some e, w')
         | (None, w') \<Rightarrow> remove_old backups to_keep (logging (Removed_old_backup backup) w'))
      else remove_old backups to_keep w)"

text \<open>\<^verbatim>\<open>[int(age.strip()) for age in max_ages.split(',')]\<close>: decimal integers with an
  optional sign, surrounded by ASCII whitespace. (The underscores Python allows between
  digits are not modelled: such a string is a \<^verbatim>\<open>ValueError\<close> here.)\<close>

fun split_comma :: "string \<Rightarrow> string list" where
  "split_comma [] = [[]]"
| "split_comma (c # cs) =
     (if c = CHR '','' then [] # split_comma cs
      else (case split_comma cs of [] \<Rightarrow> [[c]] | x # xs \<Rightarrow> (c # x) # xs))"

definition is_space :: "char \<Rightarrow> bool" where
  "is_space c \<longleftrightarrow> c \<in> set [CHR '' '', CHR 0x09, CHR 0x0A, CHR 0x0B, CHR 0x0C, CHR 0x0D]"

definition strip :: "string \<Rightarrow> string" where
  "strip s = rev (dropWhile is_space (rev (dropWhile is_space s)))"

definition py_int :: "string \<Rightarrow> exn + int" where
  "py_int s =
     (let (sgn, ds) =
            (case s of
               [] \<Rightarrow> (1, [])
             | c # r \<Rightarrow> if c = CHR ''-'' then (- 1, r) else if c = CHR ''+'' then (1, r) else (1, s))
      in if ds \<noteq> [] \<and> list_all is_digit ds then Inr (sgn * num ds) else Inl ValueError)"

fun parse_ages :: "string list \<Rightarrow> exn + int list" where
  "parse_ages [] = Inr []"
| "parse_ages (age # ages) =
     (case py_int (strip age) of
        Inl e \<Rightarrow> Inl e
      | Inr n \<Rightarrow> (case parse_ages ages of Inl e \<Rightarrow> Inl e | Inr ns \<Rightarrow> Inr (n # ns)))"

text \<open>\<^verbatim>\<open>run_backup(src, dest, max_ages, log_file)\<close>; the source, the destination and the
  log file are those of the world. Everything after the logging set-up is
  inside one \<^verbatim>\<open>try\<close>, whose handler logs the exception. \<^verbatim>\<open>clean_dates\<close> is called without
  \<open>now\<close>, so it reads the clock, and it sorts \<open>backups\<close> in place, so the removal loop
  visits the names in ascending order.\<close>

definition run_backup :: "string \<Rightarrow> world \<Rightarrow> world" where
  "run_backup max_ages w =
     (case create_backup w of
        (Some e, w1) \<Rightarrow> logging (Backup_failed e) w1
      | (None, w1) \<Rightarrow>
          (let w2 = logging Backup_created w1 in
           case parse_ages (split_comma max_ages) of
             Inl e \<Rightarrow> logging (Backup_failed e) w2
           | Inr ages \<Rightarrow>
               (let backups = map fst (filter snd (entries w2));
                    (wall, w3) = datetime_now w2;
                    (backups', r) = clean_dates wall backups None ages
                in case r of
                     Inl e \<Rightarrow> logging (Backup_failed e) w3
                   | Inr to_keep \<Rightarrow>
                       (case remove_old backups' to_keep w3 of
                          (Some e, w4) \<Rightarrow> logging (Backup_failed e) w4
                        | (None, w4) \<Rightarrow> w4))))"

text \<open>A destination with seven daily snapshots of January 2024 and a stray file, at the
  scenario's time; the second oldest snapshot cannot be removed.\<close>

definition scenario_world :: world where
  "scenario_world =
     \<lparr>clock = (\<lambda>_. scenario_now), reads = 0, src = SrcDir,
      entries =
        [(''20240103_000000'', True), (''20240101_000000'', True), (''20240102_000000'', True),
         (''20240104_000000'', True), (''20240105_000000'', True), (''20240106_000000'', True),
         (''20240107_000000'', True), (''notes.txt'', False)],
      fault = NoFault, held = [''20240102_000000''], log = []\<rparr>"

section \<open>Identifiers sort as their timestamps do\<close>

subsection \<open>Digits and fields\<close>

lemma is_digit_val: "is_digit c \<Longrightarrow> 0 \<le> digit_val c \<and> digit_val c \<le> 9"
  unfolding is_digit_def digit_val_def less_eq_char_def by simp

lemma digit_less: "c < c' \<longleftrightarrow> digit_val c < digit_val c'"
  unfolding digit_val_def less_char_def by simp

lemma digit_eq: "c = c' \<longleftrightarrow> digit_val c = digit_val c'"
  unfolding digit_val_def by simp

lemma num2: "num [a, b] = 10 * digit_val a + digit_val b"
  by (simp add: num_def)

lemma num4: "num [a, b, c, d] = 1000 * digit_val a + 100 * digit_val b + 10 * digit_val c + digit_val d"
  by (simp add: num_def)

lemma lex2:
  assumes "is_digit a" "is_digit b" "is_digit a'" "is_digit b'"
  shows "a # b # r < a' # b' # r' \<longleftrightarrow>
         num [a, b] < num [a', b'] \<or> num [a, b] = num [a', b'] \<and> r < r'"
  using assms[THEN is_digit_val]
  unfolding Cons_less_Cons num2 digit_less[of a a'] digit_less[of b b'] digit_eq[of a a'] digit_eq[of b b']
  by auto

lemma lex4:
  assumes "is_digit a" "is_digit b" "is_digit c" "is_digit d"
     "is_digit a'" "is_digit b'" "is_digit c'" "is_digit d'"
  shows "a # b # c # d # r < a' # b' # c' # d' # r' \<longleftrightarrow>
         num [a, b, c, d] < num [a', b', c', d'] \<or> num [a, b, c, d] = num [a', b', c', d'] \<and> r < r'"
  using assms[THEN is_digit_val]
  unfolding Cons_less_Cons num4 digit_less[of a a'] digit_less[of b b'] digit_eq[of a a'] digit_eq[of b b']
   digit_less[of c c'] digit_less[of d d'] digit_eq[of c c'] digit_eq[of d d']
  by auto

lemma strptime_shape:
  assumes "strptime s = Inr t"
  obtains y1 y2 y3 y4 m1 m2 d1 d2 h1 h2 n1 n2 s1 s2 where
    "s = [y1, y2, y3, y4, m1, m2, d1, d2, CHR ''_'', h1, h2, n1, n2, s1, s2]"
    "is_digit y1" "is_digit y2" "is_digit y3" "is_digit y4" "is_digit m1" "is_digit m2"
    "is_digit d1" "is_digit d2" "is_digit h1" "is_digit h2" "is_digit n1" "is_digit n2"
    "is_digit s1" "is_digit s2"
    "t = \<lparr>year = num [y1, y2, y3, y4], month = num [m1, m2], day = num [d1, d2],
          hour = num [h1, h2], minute = num [n1, n2], second = num [s1, s2], microsecond = 0\<rparr>"
    "1 \<le> num [y1, y2, y3, y4]" "1 \<le> num [m1, m2]" "num [m1, m2] \<le> 12" "1 \<le> num [d1, d2]"
    "num [d1, d2] \<le> days_in_month (num [y1, y2, y3, y4]) (num [m1, m2])"
    "num [h1, h2] \<le> 23" "num [n1, n2] \<le> 59" "num [s1, s2] \<le> 59"
  using assms
  by (elim strptime.elims) (simp_all add: Let_def split: if_splits)

subsection \<open>The calendar\<close>

lemma div_step:
  fixes y n :: int
  assumes "0 < n"
  shows "y div n = (y - 1) div n + (if y mod n = 0 then 1 else 0)"
proof (cases "y mod n = 0")
  case True
  then obtain q where q: "y = n * q" by (auto simp: mod_eq_0_iff_dvd)
  have "(y - 1) div n = q - 1"
  proof (rule int_div_pos_eq)
    show "y - 1 = n * (q - 1) + (n - 1)" unfolding q by (simp add: algebra_simps)
    show "0 \<le> n - 1" "n - 1 < n" using assms by simp_all
  qed
  moreover have "y div n = q" unfolding q using assms by simp
  ultimately show ?thesis using True by simp
next
  case False
  define r where "r = y mod n"
  have r: "0 < r" "r < n" using False assms pos_mod_sign[of n y] pos_mod_bound[of n y] 
    unfolding r_def by linarith+
  have y: "y = n * (y div n) + r" unfolding r_def by simp
  have "(y - 1) div n = y div n"
  proof (rule int_div_pos_eq)
    show "y - 1 = n * (y div n) + (r - 1)" using y by simp
    show "0 \<le> r - 1" "r - 1 < n" using r by simp_all
  qed
  then show ?thesis using False by simp
qed

lemma month_cases:
  assumes "1 \<le> m" "m \<le> 12"
  shows "m = 1 \<or> m = 2 \<or> m = 3 \<or> m = 4 \<or> m = 5 \<or> m = 6 \<or> m = 7 \<or> m = 8 \<or> m = 9 \<or> m = 10
     \<or> m = 11 \<or> m = (12::int)"
proof -
  have e: "[1..12::int] = [1, 2, 3, 4, 5, 6, 7, 8, 9, 10, 11, 12]" by code_simp
  have "m \<in> set [1..12]" using assms by simp
  then show ?thesis unfolding e by simp
qed



lemma leap_step:
  fixes y :: int
  shows "y div 4 - y div 100 + y div 400 =
     (y - 1) div 4 - (y - 1) div 100 + (y - 1) div 400 + (if is_leap y then 1 else 0)"
proof -
  define p4 p100 p400 where "p4 \<longleftrightarrow> y mod 4 = 0" and "p100 \<longleftrightarrow> y mod 100 = 0"
    and "p400 \<longleftrightarrow> y mod 400 = 0"
  have m1: "p100 \<Longrightarrow> p4" unfolding p4_def p100_def
    by (simp only: mod_eq_0_iff_dvd) (rule dvd_trans[of 4 100], simp_all)
  have m2: "p400 \<Longrightarrow> p100" unfolding p100_def p400_def
    by (simp only: mod_eq_0_iff_dvd) (rule dvd_trans[of 100 400], simp_all)
  have d4: "y div 4 = (y - 1) div 4 + (if p4 then 1 else 0)"
    unfolding p4_def by (rule div_step) simp
  have d100: "y div 100 = (y - 1) div 100 + (if p100 then 1 else 0)"
    unfolding p100_def by (rule div_step) simp
  have d400: "y div 400 = (y - 1) div 400 + (if p400 then 1 else 0)"
    unfolding p400_def by (rule div_step) simp
  have l: "is_leap y \<longleftrightarrow> p4 \<and> (\<not> p100 \<or> p400)"
    unfolding is_leap_def p4_def p100_def p400_def ..
  show ?thesis
    unfolding d4 d100 d400 l using m1 m2 by (cases p4; cases p100; cases p400) simp_all
qed

lemma days_before_year_Suc:
  "days_before_year (y + 1) = days_before_year y + (if is_leap y then 366 else 365)"
proof -
  have "days_before_year (y + 1) = y * 365 + (y div 4 - y div 100 + y div 400)"
    unfolding days_before_year_def by simp
  also have "\<dots> = y * 365 + ((y - 1) div 4 - (y - 1) div 100 + (y - 1) div 400
      + (if is_leap y then 1 else 0))"
    by (simp only: leap_step[of y])
  also have "\<dots> = days_before_year y + (if is_leap y then 366 else 365)"
    unfolding days_before_year_def by (simp add: algebra_simps)
  finally show ?thesis .
qed

lemma days_before_year_mono_aux: "0 \<le> k \<Longrightarrow> days_before_year y \<le> days_before_year (y + k)"
proof (induction k rule: int_ge_induct)
  case base
  then show ?case by simp
next
  case (step i)
  have "days_before_year (y + (i + 1)) = days_before_year ((y + i) + 1)" by (simp add: add.assoc)
  also have "\<dots> \<ge> days_before_year (y + i)" unfolding days_before_year_Suc by simp
  finally show ?case using step by linarith
qed

lemma days_before_year_mono: "y \<le> y' \<Longrightarrow> days_before_year y \<le> days_before_year y'"
  using days_before_year_mono_aux[of "y' - y" y] by simp

lemma days_before_month_nonneg: "0 \<le> days_before_month y m"
  unfolding days_before_month_def by simp

lemma days_before_month_Suc:
  assumes "1 \<le> m" "m \<le> 11"
  shows "days_before_month y (m + 1) = days_before_month y m + days_in_month y m"
proof -
  have "m = 1 \<or> m = 2 \<or> m = 3 \<or> m = 4 \<or> m = 5 \<or> m = 6 \<or> m = 7 \<or> m = 8 \<or> m = 9 \<or> m = 10
     \<or> m = 11 \<or> m = 12" using assms by (intro month_cases) simp_all
  then have "m = 1 \<or> m = 2 \<or> m = 3 \<or> m = 4 \<or> m = 5 \<or> m = 6 \<or> m = 7 \<or> m = 8 \<or> m = 9 \<or> m = 10
     \<or> m = 11" using assms by simp
  then show ?thesis
    by (elim disjE) (simp_all add: days_before_month_def days_in_month_def)
qed

lemma days_in_month_pos: "0 < days_in_month y m"
  unfolding days_in_month_def by simp

lemma days_before_month_mono_aux:
  "0 \<le> k \<Longrightarrow> 1 \<le> m \<Longrightarrow> m + k \<le> 12 \<Longrightarrow> days_before_month y m \<le> days_before_month y (m + k)"
proof (induction k rule: int_ge_induct)
  case base
  then show ?case by simp
next
  case (step i)
  have "days_before_month y (m + (i + 1)) = days_before_month y ((m + i) + 1)"
    by (simp add: add.assoc)
  also have "\<dots> = days_before_month y (m + i) + days_in_month y (m + i)"
    using step by (intro days_before_month_Suc) simp_all
  finally show ?case using step days_in_month_pos[of y "m + i"] by simp
qed

lemma days_before_month_step:
  assumes "1 \<le> m" "m < m'" "m' \<le> 12"
  shows "days_before_month y m + days_in_month y m \<le> days_before_month y m'"
proof -
  have "days_before_month y m + days_in_month y m = days_before_month y (m + 1)"
    using assms by (simp add: days_before_month_Suc)
  also have "\<dots> \<le> days_before_month y ((m + 1) + (m' - (m + 1)))"
    using assms by (intro days_before_month_mono_aux) simp_all
  finally show ?thesis by simp
qed

lemma days_in_year_bound:
  assumes "1 \<le> m" "m \<le> 12"
  shows "days_before_month y m + days_in_month y m \<le> (if is_leap y then 366 else 365)"
  using month_cases[OF assms]
  by (elim disjE) (simp_all add: days_before_month_def days_in_month_def)

lemma ymd2ord_mono:
  assumes v: "1 \<le> m" "m \<le> 12" "1 \<le> d" "d \<le> days_in_month y m"
    and v': "1 \<le> m'" "m' \<le> 12" "1 \<le> d'" "d' \<le> days_in_month y' m'"
    and lt: "y < y' \<or> y = y' \<and> (m < m' \<or> m = m' \<and> d < d')"
  shows "ymd2ord y m d < ymd2ord y' m' d'"
proof -
  consider "y < y'" | "y = y'" "m < m'" | "y = y'" "m = m'" "d < d'" using lt by blast
  then show ?thesis
  proof cases
    case 1
    have "days_before_month y m + d \<le> (if is_leap y then 366 else 365)"
      using days_in_year_bound[OF v(1,2), of y] v(4) by (simp split: if_splits)
    then have "ymd2ord y m d \<le> days_before_year (y + 1)"
      unfolding ymd2ord_def days_before_year_Suc by (simp split: if_splits)
    also have "\<dots> \<le> days_before_year y'" using 1 by (intro days_before_year_mono) simp
    also have "\<dots> < ymd2ord y' m' d'"
      using days_before_month_nonneg[of y' m'] v'(3) unfolding ymd2ord_def by linarith
    finally show ?thesis .
  next
    case 2
    have "days_before_month y m + days_in_month y m \<le> days_before_month y m'"
      using days_before_month_step[OF v(1) 2(2) v'(2)] .
    then show ?thesis
      using v(4) v'(3) unfolding ymd2ord_def 2(1) by linarith
  next
    case 3
    then show ?thesis unfolding ymd2ord_def by simp
  qed
qed

subsection \<open>String order and chronological order\<close>

lemma secs_lex:
  fixes H N S H' N' S' :: int
  assumes "0 \<le> N" "N \<le> 59" "0 \<le> S" "S \<le> 59" "0 \<le> N'" "N' \<le> 59" "0 \<le> S'" "S' \<le> 59"
    and "H < H' \<or> H = H' \<and> (N < N' \<or> N = N' \<and> S < S')"
  shows "H * 3600 + N * 60 + S < H' * 3600 + N' * 60 + S'"
  using assms by linarith

lemma stamp_less:
  assumes "strptime s = Inr t" "strptime s' = Inr t'" "s < s'"
  shows "instant t < instant t'"
proof -
  from assms(1) obtain y1 y2 y3 y4 m1 m2 d1 d2 h1 h2 n1 n2 s1 s2 where
    s: "s = [y1, y2, y3, y4, m1, m2, d1, d2, CHR ''_'', h1, h2, n1, n2, s1, s2]" and
    dg: "is_digit y1" "is_digit y2" "is_digit y3" "is_digit y4" "is_digit m1" "is_digit m2"
    "is_digit d1" "is_digit d2" "is_digit h1" "is_digit h2" "is_digit n1" "is_digit n2"
    "is_digit s1" "is_digit s2" and
    t: "t = \<lparr>year = num [y1, y2, y3, y4], month = num [m1, m2], day = num [d1, d2],
          hour = num [h1, h2], minute = num [n1, n2], second = num [s1, s2], microsecond = 0\<rparr>" and
    v: "1 \<le> num [m1, m2]" "num [m1, m2] \<le> 12" "1 \<le> num [d1, d2]"
    "num [d1, d2] \<le> days_in_month (num [y1, y2, y3, y4]) (num [m1, m2])" and
    tv: "num [h1, h2] \<le> 23" "num [n1, n2] \<le> 59" "num [s1, s2] \<le> 59"
    by (rule strptime_shape)
  from assms(2) obtain y1' y2' y3' y4' m1' m2' d1' d2' h1' h2' n1' n2' s1' s2' where
    s': "s' = [y1', y2', y3', y4', m1', m2', d1', d2', CHR ''_'', h1', h2', n1', n2', s1', s2']" and
    dg': "is_digit y1'" "is_digit y2'" "is_digit y3'" "is_digit y4'" "is_digit m1'" "is_digit m2'"
    "is_digit d1'" "is_digit d2'" "is_digit h1'" "is_digit h2'" "is_digit n1'" "is_digit n2'"
    "is_digit s1'" "is_digit s2'" and
    t': "t' = \<lparr>year = num [y1', y2', y3', y4'], month = num [m1', m2'], day = num [d1', d2'],
          hour = num [h1', h2'], minute = num [n1', n2'], second = num [s1', s2'], microsecond = 0\<rparr>" and
    v': "1 \<le> num [m1', m2']" "num [m1', m2'] \<le> 12" "1 \<le> num [d1', d2']"
    "num [d1', d2'] \<le> days_in_month (num [y1', y2', y3', y4']) (num [m1', m2'])" and
    tv': "num [h1', h2'] \<le> 23" "num [n1', n2'] \<le> 59" "num [s1', s2'] \<le> 59"
    by (rule strptime_shape)
  define Y M D H N S where "Y = num [y1, y2, y3, y4]" and "M = num [m1, m2]" and "D = num [d1, d2]"
    and "H = num [h1, h2]" and "N = num [n1, n2]" and "S = num [s1, s2]"
  define Y' M' D' H' N' S' where "Y' = num [y1', y2', y3', y4']" and "M' = num [m1', m2']"
    and "D' = num [d1', d2']" and "H' = num [h1', h2']" and "N' = num [n1', n2']"
    and "S' = num [s1', s2']"
  note defs = Y_def M_def D_def H_def N_def S_def Y'_def M'_def D'_def H'_def N'_def S'_def
  have nn: "0 \<le> H" "0 \<le> N" "0 \<le> S" "0 \<le> H'" "0 \<le> N'" "0 \<le> S'"
    using dg[THEN is_digit_val] dg'[THEN is_digit_val] unfolding defs num2 by simp_all
  have lex: "Y < Y' \<or> Y = Y' \<and> (M < M' \<or> M = M' \<and> (D < D' \<or> D = D' \<and>
      (H < H' \<or> H = H' \<and> (N < N' \<or> N = N' \<and> S < S'))))"
    using assms(3) unfolding s s'
    unfolding lex4[OF dg(1-4) dg'(1-4)] lex2[OF dg(5,6) dg'(5,6)] lex2[OF dg(7,8) dg'(7,8)]
      Cons_less_Cons[of "CHR ''_''"] lex2[OF dg(9,10) dg'(9,10)] lex2[OF dg(11,12) dg'(11,12)]
      lex2[OF dg(13,14) dg'(13,14)] defs[symmetric]
    by simp
  have secs: "H * 3600 + N * 60 + S \<le> 86399" "0 \<le> H * 3600 + N * 60 + S"
      "H' * 3600 + N' * 60 + S' \<le> 86399" "0 \<le> H' * 3600 + N' * 60 + S'"
    using tv tv' nn unfolding defs[symmetric] by simp_all
  consider (date) "Y < Y' \<or> Y = Y' \<and> (M < M' \<or> M = M' \<and> D < D')"
    | (time) "Y = Y'" "M = M'" "D = D'" "H < H' \<or> H = H' \<and> (N < N' \<or> N = N' \<and> S < S')"
    using lex by blast
  then have "ymd2ord Y M D * 86400 + (H * 3600 + N * 60 + S)
      < ymd2ord Y' M' D' * 86400 + (H' * 3600 + N' * 60 + S')"
  proof cases
    case date
    have "ymd2ord Y M D < ymd2ord Y' M' D'"
      using ymd2ord_mono[OF v[folded defs] v'[folded defs] date] .
    then show ?thesis using secs by linarith
  next
    case time
    have "H * 3600 + N * 60 + S < H' * 3600 + N' * 60 + S'"
      using nn(2) tv(2)[folded defs] nn(3) tv(3)[folded defs] nn(5) tv'(2)[folded defs] 
        nn(6) tv'(3)[folded defs] time(4) by (rule secs_lex)
    then show ?thesis using time(1-3) by simp
  qed
  then show ?thesis
    unfolding t t' instant_def toordinal_def defs[symmetric] by simp
qed

lemma stamp_mono:
  assumes "well_formed s" "well_formed s'" "s < s'"
  shows "stamp s < stamp s'"
proof -
  from assms(1) obtain t where t: "strptime s = Inr t"
    unfolding well_formed_def by (auto split: sum.splits)
  from assms(2) obtain t' where t': "strptime s' = Inr t'"
    unfolding well_formed_def by (auto split: sum.splits)
  show ?thesis using stamp_less[OF t t' assms(3)] unfolding stamp_def t t' by simp
qed

lemma stamp_less_iff:
  assumes "well_formed s" "well_formed s'"
  shows "stamp s < stamp s' \<longleftrightarrow> s < s'"
proof
  assume l: "stamp s < stamp s'"
  show "s < s'"
  proof (rule ccontr)
    assume "\<not> s < s'"
    then have "s' < s \<or> s' = s" by auto
    then show False using stamp_mono[OF assms(2,1)] l by auto
  qed
qed (rule stamp_mono[OF assms])

lemma stamp_le_iff:
  assumes "well_formed s" "well_formed s'"
  shows "stamp s \<le> stamp s' \<longleftrightarrow> s \<le> s'"
  using stamp_less_iff[OF assms(2,1)] by (simp add: not_less[symmetric])

lemma lt_max_wf:
  "\<forall>d \<in> set dates. well_formed d \<Longrightarrow> lt_max now a dates = Inr (qualifying now a dates)"
  by (induction dates)
     (auto simp: qualifying_def well_formed_def age_days_def split: sum.splits)

lemma buckets_wf:
  assumes "\<forall>d \<in> set dates. well_formed d"
  shows "buckets now dates max_ages clean =
         Inr (clean @ concat (map (\<lambda>a. take 1 (qualifying now a dates)) max_ages))"
proof (induction max_ages arbitrary: clean)
  case Nil
  then show ?case by simp
next
  case (Cons a max_ages)
  show ?case
    by (cases "qualifying now a dates") (simp_all add: lt_max_wf[OF assms] Cons)
qed

lemma clean_dates_wf:
  assumes "\<forall>d \<in> set dates. well_formed d"
  shows "clean_dates wall dates now max_ages =
         (sort dates,
          Inr (sort (remdups (concat (map (\<lambda>a. take 1 (qualifying (effective_now wall now) a (sort dates))) max_ages)
                 @ newest5 (sort dates)))))"
proof -
  have "\<forall>d \<in> set (sort dates). well_formed d" using assms by simp
  from buckets_wf[OF this] show ?thesis
    unfolding clean_dates_def by (simp add: Let_def)
qed

lemma take1_earliest:
  assumes wf: "\<forall>d \<in> set xs. well_formed d" and srt: "sorted xs"
  shows "set (take 1 (qualifying now a xs)) = earliest {d \<in> set xs. age_days now d < a}"
proof (cases "qualifying now a xs")
  case Nil
  then have e: "{d \<in> set xs. age_days now d < a} = {}"
    unfolding qualifying_def by (auto simp: filter_empty_conv)
  show ?thesis unfolding e Nil by (simp add: earliest_def)
next
  case (Cons m rest)
  have Q: "set (qualifying now a xs) = {d \<in> set xs. age_days now d < a}"
    unfolding qualifying_def by auto
  have s: "sorted (m # rest)" using srt unfolding Cons[symmetric] qualifying_def
    by (rule sorted_wrt_filter)
  have wfQ: "\<forall>d \<in> set (m # rest). well_formed d"
    using wf Q unfolding Cons[symmetric] by auto
  have le: "\<forall>q \<in> set (m # rest). m \<le> q" using s by auto
  have "earliest (set (m # rest)) = {m}"
  proof (intro equalityI subsetI)
    fix x assume "x \<in> earliest (set (m # rest))"
    then have x: "x \<in> set (m # rest)" "stamp x \<le> stamp m" unfolding earliest_def by auto
    have "x \<le> m" using x wfQ stamp_le_iff[of x m] by auto
    moreover have "m \<le> x" using le x(1) by blast
    ultimately show "x \<in> {m}" by simp
  next
    fix x assume "x \<in> {m}"
    then show "x \<in> earliest (set (m # rest))"
      unfolding earliest_def using le wfQ stamp_le_iff[of m] by auto
  qed
  then show ?thesis unfolding Q[symmetric] Cons by simp
qed

section \<open>What \<^verbatim>\<open>clean_dates\<close> returns on well-formed identifiers\<close>

lemma buckets_Nil: "buckets now [] max_ages clean = Inr clean"
  by (induction max_ages arbitrary: clean) simp_all

lemma sort_remdups_cong: "set xs = set ys \<Longrightarrow> sort (remdups xs) = sort (remdups ys)"
  by (simp add: sorted_list_of_set_sort_remdups[symmetric])

lemma set_representatives:
  "set (concat (map (\<lambda>a. take 1 (qualifying now a dates)) max_ages))
   = (\<Union>a \<in> set max_ages. set (take 1 (qualifying now a dates)))"
  by simp

lemma length_representatives:
  "length (concat (map (\<lambda>a. take 1 (qualifying now a dates)) max_ages)) \<le> length max_ages"
proof (induction max_ages)
  case Nil
  then show ?case by simp
next
  case (Cons a max_ages)
  have "length (take 1 (qualifying now a dates)) \<le> 1" by simp
  then show ?case using Cons by (simp del: take_Suc length_take One_nat_def)
qed

lemma representatives_subset:
  "set (concat (map (\<lambda>a. take 1 (qualifying now a dates)) max_ages)) \<subseteq> set dates"
  by (auto simp: qualifying_def dest: in_set_takeD)

lemma newest5_subset: "set (newest5 xs) \<subseteq> set xs"
  unfolding newest5_def by (rule set_drop_subset)

lemma length_newest5: "length (newest5 xs) = min 5 (length xs)"
  unfolding newest5_def by simp

lemma distinct_newest5: "distinct xs \<Longrightarrow> distinct (newest5 xs)"
  unfolding newest5_def by simp

lemma newest5_latest:
  assumes srt: "sorted xs" and dst: "distinct xs" and d: "d \<in> set xs"
    and few: "card {e \<in> set xs. d < e} < 5"
  shows "d \<in> set (newest5 xs)"
proof -
  from d obtain i where i: "i < length xs" "xs ! i = d" by (auto simp: in_set_conv_nth)
  have strict: "sorted_wrt (<) xs" using srt dst by (simp add: strict_sorted_iff)
  have "set (drop (Suc i) xs) \<subseteq> {e \<in> set xs. d < e}"
  proof
    fix e assume "e \<in> set (drop (Suc i) xs)"
    then obtain k where k: "k < length xs - Suc i" "e = xs ! (Suc i + k)"
      by (auto simp: in_set_conv_nth)
    have "xs ! i < xs ! (Suc i + k)" using k(1) by (intro sorted_wrt_nth_less[OF strict]) simp_all
    then show "e \<in> {e \<in> set xs. d < e}" using k i by simp
  qed
  then have "card (set (drop (Suc i) xs)) \<le> card {e \<in> set xs. d < e}"
    by (intro card_mono) simp_all
  moreover have "card (set (drop (Suc i) xs)) = length xs - Suc i"
    using dst by (simp add: distinct_card)
  ultimately have "length xs - Suc i < 5" using few by simp
  then have "length xs - 5 \<le> i" by simp
  then have "xs ! i \<in> set (drop (length xs - 5) xs)"
    using i(1) by (auto simp: in_set_conv_nth intro!: exI[of _ "i - (length xs - 5)"])
  then show ?thesis unfolding newest5_def i(2) .
qed

lemma latest_newest5:
  assumes wf: "\<forall>d \<in> set dates. well_formed d" and dst: "distinct dates"
  shows "latest 5 (set dates) = set (newest5 (sort dates))"
proof -
  define xs where "xs = sort dates"
  have srt: "sorted xs" and dxs: "distinct xs" and sxs: "set xs = set dates"
    and wfx: "\<forall>d \<in> set xs. well_formed d"
    unfolding xs_def using dst wf by simp_all
  have strict: "sorted_wrt (<) xs" using srt dxs by (simp add: strict_sorted_iff)
  have later: "{e \<in> set xs. stamp d < stamp e} = {e \<in> set xs. d < e}" if "d \<in> set xs" for d
    using that wfx stamp_less_iff by blast
  have "latest 5 (set xs) = set (newest5 xs)"
  proof (intro equalityI subsetI)
    fix d assume "d \<in> latest 5 (set xs)"
    then have d: "d \<in> set xs" "card {e \<in> set xs. stamp d < stamp e} < 5"
      unfolding latest_def by auto
    show "d \<in> set (newest5 xs)"
      using newest5_latest[OF srt dxs d(1)] d(2) unfolding later[OF d(1)] .
  next
    fix d assume "d \<in> set (newest5 xs)"
    then obtain k where k: "k < length xs - (length xs - 5)" "d = xs ! ((length xs - 5) + k)"
      unfolding newest5_def by (auto simp: in_set_conv_nth)
    define i where "i = (length xs - 5) + k"
    have i: "i < length xs" "length xs - 5 \<le> i" "d = xs ! i" using k unfolding i_def by simp_all
    have d: "d \<in> set xs" using i by simp
    have "{e \<in> set xs. d < e} \<subseteq> set (drop (Suc i) xs)"
    proof
      fix e assume "e \<in> {e \<in> set xs. d < e}"
      then obtain j where j: "j < length xs" "e = xs ! j" "d < e" by (auto simp: in_set_conv_nth)
      have "i < j"
      proof (rule ccontr)
        assume "\<not> i < j"
        then have "j \<le> i" by simp
        then have "xs ! j \<le> xs ! i" using srt i(1) by (simp add: sorted_nth_mono)
        then show False using j i(3) by simp
      qed
      then show "e \<in> set (drop (Suc i) xs)"
        using j by (auto simp: in_set_conv_nth intro!: exI[of _ "j - Suc i"])
    qed
    then have "card {e \<in> set xs. d < e} \<le> card (set (drop (Suc i) xs))"
      by (intro card_mono) simp_all
    also have "\<dots> = length xs - Suc i" using dxs by (simp add: distinct_card)
    also have "\<dots> < 5" using i by linarith
    finally show "d \<in> latest 5 (set xs)" unfolding latest_def using d later[OF d] by simp
  qed
  then show ?thesis unfolding xs_def by simp
qed

lemma clean_dates_set:
  assumes wf: "\<forall>d \<in> set dates. well_formed d"
  shows "\<exists>r. clean_dates wall dates now max_ages = (sort dates, Inr r)
     \<and> sorted r \<and> distinct r
     \<and> set r = (\<Union>a \<in> set max_ages. earliest {d \<in> set dates. age_days (effective_now wall now) d < a})
               \<union> set (newest5 (sort dates))"
proof -
  have wfs: "\<forall>d \<in> set (sort dates). well_formed d" using wf by simp
  have e: "set (take 1 (qualifying (effective_now wall now) a (sort dates)))
        = earliest {d \<in> set dates. age_days (effective_now wall now) d < a}" for a
    using take1_earliest[OF wfs, of "effective_now wall now" a] by simp
  show ?thesis
    unfolding clean_dates_wf[OF wf] by (simp add: e del: take_Suc One_nat_def)
qed

lemma clean_dates_bounds:
  assumes wf: "\<forall>d \<in> set dates. well_formed d" and dst: "distinct dates"
  shows "\<exists>r. snd (clean_dates wall dates now max_ages) = Inr r \<and> set r \<subseteq> set dates \<and> distinct r
     \<and> (\<forall>d \<in> set r. well_formed d)
     \<and> length r \<le> length max_ages + 5 \<and> min 5 (length dates) \<le> length r"
proof -
  define A where
    "A = concat (map (\<lambda>a. take 1 (qualifying (effective_now wall now) a (sort dates))) max_ages)"
  define N where "N = newest5 (sort dates)"
  define r where "r = sort (remdups (A @ N))"
  have res: "snd (clean_dates wall dates now max_ages) = Inr r"
    unfolding clean_dates_wf[OF wf] r_def A_def N_def by simp
  have A: "set A \<subseteq> set dates" "length A \<le> length max_ages"
    using representatives_subset[of "effective_now wall now" "sort dates" max_ages]
      length_representatives[of "effective_now wall now" "sort dates" max_ages]
    unfolding A_def by simp_all
  have N: "set N \<subseteq> set dates" "length N = min 5 (length dates)" "distinct N"
    using newest5_subset[of "sort dates"] length_newest5[of "sort dates"]
      distinct_newest5[of "sort dates"] dst
    unfolding N_def by simp_all
  have sub: "set r \<subseteq> set dates" using A(1) N(1) unfolding r_def by simp
  have d: "distinct r" unfolding r_def by simp
  have "length r \<le> length (A @ N)"
    unfolding r_def using length_remdups_leq[of "A @ N"] by (simp del: length_remdups_leq)
  then have up: "length r \<le> length max_ages + 5" using A(2) N(2) by simp
  have "card (set N) \<le> card (set r)" unfolding r_def by (intro card_mono) auto
  then have lo: "min 5 (length dates) \<le> length r"
    using distinct_card[OF N(3)] distinct_card[OF d] N(2) by simp
  show ?thesis using res sub d up lo wf by blast
qed

lemma simulate_bounds:
  assumes "\<forall>d \<in> set (dates @ map fst steps). well_formed d" "distinct (dates @ map fst steps)"
  shows "\<exists>r. simulate wall dates max_ages steps = Inr r \<and> set r \<subseteq> set dates \<union> fst ` set steps
     \<and> distinct r \<and> (steps \<noteq> [] \<longrightarrow> length r \<le> length max_ages + 5)
     \<and> min 5 (length dates + length steps) \<le> length r"
  using assms
proof (induction steps arbitrary: dates)
  case Nil
  then show ?case by simp
next
  case (Cons step steps)
  obtain new now where step: "step = (new, now)" by (cases step)
  have wf1: "\<forall>d \<in> set (dates @ [new]). well_formed d" and d1: "distinct (dates @ [new])"
    using Cons.prems unfolding step by auto
  from clean_dates_bounds[OF wf1 d1, of wall "Some now" max_ages]
  obtain k where k: "snd (clean_dates wall (dates @ [new]) (Some now) max_ages) = Inr k"
    "set k \<subseteq> set (dates @ [new])" "distinct k" "length k \<le> length max_ages + 5"
    "min 5 (length (dates @ [new])) \<le> length k" by blast
  have wf2: "\<forall>d \<in> set (k @ map fst steps). well_formed d"
    using k(2) Cons.prems(1) unfolding step by auto
  have d2: "distinct (k @ map fst steps)"
    using k(2,3) Cons.prems(2) unfolding step by auto
  from Cons.IH[OF wf2 d2]
  obtain r where r: "simulate wall k max_ages steps = Inr r" "set r \<subseteq> set k \<union> fst ` set steps"
    "distinct r" "steps \<noteq> [] \<longrightarrow> length r \<le> length max_ages + 5"
    "min 5 (length k + length steps) \<le> length r" by blast
  have run: "simulate wall dates max_ages (step # steps) = Inr r"
    unfolding step using k(1) r(1) by simp
  have sub: "set r \<subseteq> set dates \<union> fst ` set (step # steps)"
    using r(2) k(2) unfolding step by auto
  have up: "length r \<le> length max_ages + 5"
  proof (cases "steps = []")
    case True
    then have "r = k" using r(1) by simp
    then show ?thesis using k(4) by simp
  next
    case False
    then show ?thesis using r(4) by simp
  qed
  have lo: "min 5 (length dates + length (step # steps)) \<le> length r"
    using r(5) k(5) by simp
  show ?case using run sub r(3) up lo by blast
qed

lemma clean_dates_perm:
  assumes wf: "\<forall>d \<in> set dates. well_formed d" and p: "set max_ages = set max_ages'"
  shows "clean_dates wall dates now max_ages = clean_dates wall dates now max_ages'"
  unfolding clean_dates_wf[OF wf]
  by (simp del: take_Suc One_nat_def, rule sort_remdups_cong) (simp add: p del: take_Suc One_nat_def)

lemma earliest_qualifying:
  assumes wf: "\<forall>d \<in> set dates. well_formed d"
  shows "earliest (set (qualifying now a dates)) = set (take 1 (qualifying now a (sort dates)))"
proof -
  have wfs: "\<forall>d \<in> set (sort dates). well_formed d" using wf by simp
  have "set (qualifying now a dates) = {d \<in> set (sort dates). age_days now d < a}"
    unfolding qualifying_def by auto
  then show ?thesis using take1_earliest[OF wfs, of now a] by simp
qed

lemma spec_age_agrees:
  assumes "stamp d \<le> instant now"
  shows "spec_age now d = age_days now d"
proof (cases "strptime d")
  case (Inl e)
  then show ?thesis unfolding spec_age_def age_days_def by simp
next
  case (Inr t)
  then have "0 \<le> instant now - instant t" using assms unfolding stamp_def by simp
  then show ?thesis
    unfolding spec_age_def age_days_def Inr sub_days_def trunc_div_def by simp
qed

section \<open>The run: what a failure leaves behind\<close>

lemma create_backup_keeps:
  "set (entries w) \<subseteq> set (entries (snd (create_backup w)))"
  unfolding create_backup_def datetime_now_def by (auto simp: Let_def)

lemma create_backup_log: "log (snd (create_backup w)) = log w"
  unfolding create_backup_def datetime_now_def by (simp add: Let_def)

lemma fst_clean_dates: "fst (clean_dates wall dates now max_ages) = sort dates"
  unfolding clean_dates_def by (simp add: Let_def)

lemma remove_old_stuck:
  assumes "stuck \<notin> set to_keep" "stuck \<in> set (held w)" "stuck \<in> fst ` set (entries w)"
    and "\<forall>b \<in> set before. b \<notin> set to_keep \<longrightarrow> b \<notin> set (held w) \<and> b \<in> fst ` set (entries w)"
    and "distinct (before @ [stuck])"
  shows "remove_old (before @ stuck # rest) to_keep w =
     (Some OSError,
      w\<lparr>entries := filter (\<lambda>(name, _). name \<in> set to_keep \<or> name \<notin> set before) (entries w),
        log := log w @ map Removed_old_backup (filter (\<lambda>b. b \<notin> set to_keep) before)\<rparr>)"
  using assms
proof (induction before arbitrary: w)
  case Nil
  then show ?case by (simp add: rmtree_def)
next
  case (Cons b before)
  show ?case
  proof (cases "b \<in> set to_keep")
    case True
    have "remove_old ((b # before) @ stuck # rest) to_keep w
        = remove_old (before @ stuck # rest) to_keep w" using True by simp
    also have "\<dots> = (Some OSError,
      w\<lparr>entries := filter (\<lambda>(name, _). name \<in> set to_keep \<or> name \<notin> set before) (entries w),
        log := log w @ map Removed_old_backup (filter (\<lambda>b. b \<notin> set to_keep) before)\<rparr>)"
      using Cons.prems by (intro Cons.IH) auto
    also have "filter (\<lambda>(name, _). name \<in> set to_keep \<or> name \<notin> set before) (entries w)
        = filter (\<lambda>(name, _). name \<in> set to_keep \<or> name \<notin> set (b # before)) (entries w)"
      using True by (intro filter_cong) auto
    finally show ?thesis using True by simp
  next
    case False
    define w' where "w' = logging (Removed_old_backup b)
        (w\<lparr>entries := filter (\<lambda>(name, _). name \<noteq> b) (entries w)\<rparr>)"
    have b: "b \<notin> set (held w)" "b \<in> fst ` set (entries w)" "b \<noteq> stuck" "b \<notin> set before"
      using Cons.prems False by auto
    have "remove_old ((b # before) @ stuck # rest) to_keep w
        = remove_old (before @ stuck # rest) to_keep w'"
      using False b(1,2) unfolding w'_def by (simp add: rmtree_def)
    also have "\<dots> = (Some OSError,
      w'\<lparr>entries := filter (\<lambda>(name, _). name \<in> set to_keep \<or> name \<notin> set before) (entries w'),
        log := log w' @ map Removed_old_backup (filter (\<lambda>b. b \<notin> set to_keep) before)\<rparr>)"
    proof (intro Cons.IH)
      show "stuck \<notin> set to_keep" using Cons.prems(1) .
      show "stuck \<in> set (held w')" using Cons.prems(2) unfolding w'_def logging_def by simp
      show "stuck \<in> fst ` set (entries w')"
        using Cons.prems(3) b(3) unfolding w'_def logging_def by force
      show "\<forall>c \<in> set before. c \<notin> set to_keep \<longrightarrow> c \<notin> set (held w') \<and> c \<in> fst ` set (entries w')"
        using Cons.prems(4) b(4) unfolding w'_def logging_def by force
      show "distinct (before @ [stuck])" using Cons.prems(5) by simp
    qed
    also have "filter (\<lambda>(name, _). name \<in> set to_keep \<or> name \<notin> set before) (entries w')
        = filter (\<lambda>(name, _). name \<in> set to_keep \<or> name \<notin> set (b # before)) (entries w)"
      unfolding w'_def logging_def using False by (auto intro: filter_cong)
    finally show ?thesis using False unfolding w'_def logging_def by simp
  qed
qed

section \<open>The claims about \<^verbatim>\<open>clean_dates\<close>\<close>

text \<open>C10. For the empty list of identifiers \<^verbatim>\<open>clean_dates\<close> returns the empty list and
  raises nothing, whatever \<open>now\<close> (given or not) and \<open>max_ages\<close> are.\<close>

theorem clean_dates_empty: "clean_dates wall [] now max_ages = ([], Inr [])"
  unfolding clean_dates_def by (simp add: buckets_Nil newest5_def)

text \<open>C1. In the concrete scenario (the eight identifiers, \<open>now\<close> = 2024-11-15 14:03:22,
  \<open>max_ages = (2, 14, 60)\<close>) the call returns seven identifiers: exactly the five
  chronologically latest, the earliest one whose age truncated to whole days is below 60,
  and the earliest one whose truncated age is below 14; the earliest one below 2 days is
  already among the latest five.\<close>

theorem concrete_scenario:
  "clean_dates wall scenario_ids (Some scenario_now) [2, 14, 60] = (scenario_ids, Inr scenario_kept)
   \<and> set scenario_kept =
       latest 5 (set scenario_ids)
       \<union> earliest (set (spec_qualifying scenario_now 60 scenario_ids))
       \<union> earliest (set (spec_qualifying scenario_now 14 scenario_ids))
   \<and> earliest (set (spec_qualifying scenario_now 2 scenario_ids)) \<subseteq> latest 5 (set scenario_ids)"
proof (intro conjI)
  show "clean_dates wall scenario_ids (Some scenario_now) [2, 14, 60]
        = (scenario_ids, Inr scenario_kept)"
    by code_simp
  have l: "latest 5 (set scenario_ids) = set (drop 3 scenario_ids)"
    by code_simp
  have e60: "earliest (set (spec_qualifying scenario_now 60 scenario_ids)) = {''20241101_140322''}"
    by code_simp
  have e14: "earliest (set (spec_qualifying scenario_now 14 scenario_ids)) = {''20241113_140322''}"
    by code_simp
  have e2: "earliest (set (spec_qualifying scenario_now 2 scenario_ids)) = {''20241115_080322''}"
    by code_simp
  show "set scenario_kept =
       latest 5 (set scenario_ids)
       \<union> earliest (set (spec_qualifying scenario_now 60 scenario_ids))
       \<union> earliest (set (spec_qualifying scenario_now 14 scenario_ids))"
    unfolding l e60 e14 by (simp add: scenario_kept_def scenario_ids_def insert_commute)
  show "earliest (set (spec_qualifying scenario_now 2 scenario_ids)) \<subseteq> latest 5 (set scenario_ids)"
    unfolding l e2 by (simp add: scenario_ids_def)
qed

theorem concrete_scenario_witness:
  "snd (clean_dates scenario_now scenario_ids (Some scenario_now) [2, 14, 60]) = Inr scenario_kept"
  using concrete_scenario[of scenario_now] by simp

text \<open>C6, as the code has it. \<^verbatim>\<open>clean_dates\<close> has one effect on its inputs: it sorts the list
  of identifiers in place. After every call, also one that raises, the list holds the
  same elements as before, in ascending order. The claim that the argument keeps its
  order fails on a list that is not sorted.\<close>

theorem clean_dates_sorts_argument:
  "fst (clean_dates wall dates now max_ages) = sort dates
   \<and> mset (fst (clean_dates wall dates now max_ages)) = mset dates"
  unfolding clean_dates_def by (simp add: Let_def)

theorem argument_order_counterexample:
  "fst (clean_dates scenario_now [''20241115_130322'', ''20241101_140322''] (Some scenario_now)
          [2, 14, 60])
   \<noteq> [''20241115_130322'', ''20241101_140322'']"
  by code_simp

text \<open>C5, as the code has it. When the caller gives \<open>now\<close>, the result depends on the
  identifiers, \<open>now\<close> and \<open>max_ages\<close> only and not on the clock; when \<open>now\<close> is left
  out, the function reads the clock and returns what it returns for that reading given
  as \<open>now\<close>. Two calls without \<open>now\<close> at different times differ.\<close>

theorem clean_dates_clock:
  "clean_dates wall dates (Some now) max_ages = clean_dates wall' dates (Some now) max_ages
   \<and> clean_dates wall dates None max_ages = clean_dates wall' dates (Some wall) max_ages"
  unfolding clean_dates_def effective_now_def by simp

theorem implicit_clock_counterexample:
  "snd (clean_dates scenario_now scenario_ids None [2, 14, 60])
   \<noteq> snd (clean_dates scenario_later scenario_ids None [2, 14, 60])"
  by code_simp

text \<open>C2, as the code has it. On well-formed identifiers the call raises nothing and
  returns exactly the representatives of the thresholds together with the last five of
  the sorted list. For each threshold \<open>a\<close> of \<open>max_ages\<close>, the identifiers young enough
  are those whose age \<^verbatim>\<open>(now - timestamp).days\<close> is strictly below \<open>a\<close>, where
  \<^verbatim>\<open>.days\<close> is the floor of the difference in days; when there are none the threshold
  contributes nothing, otherwise it contributes exactly one identifier, the
  chronologically earliest of them. The floor and the truncation of the claim differ for
  an identifier later than \<open>now\<close>: one second after \<open>now\<close> has \<^verbatim>\<open>.days = -1\<close> and
  truncated age 0, so the threshold 0 selects it. For an identifier not later than
  \<open>now\<close> the two ages are equal.\<close>

theorem bucket_representatives:
  assumes "\<forall>d \<in> set dates. well_formed d"
  shows "\<exists>r. clean_dates wall dates (Some now) max_ages = (sort dates, Inr r)
     \<and> set r = (\<Union>a \<in> set max_ages. earliest (set (qualifying now a dates)))
                 \<union> set (newest5 (sort dates))
     \<and> (\<forall>a \<in> set max_ages.
           (qualifying now a dates = [] \<and> earliest (set (qualifying now a dates)) = {})
           \<or> (\<exists>m \<in> set (qualifying now a dates).
                 earliest (set (qualifying now a dates)) = {m}
                 \<and> (\<forall>q \<in> set (qualifying now a dates). stamp m \<le> stamp q)
                 \<and> m \<in> set r))
     \<and> (\<forall>d \<in> set dates. stamp d \<le> instant now \<longrightarrow> spec_age now d = age_days now d)"
proof -
  have Q: "{d \<in> set dates. age_days now d < a} = set (qualifying now a dates)" for a
    unfolding qualifying_def by auto
  have "\<exists>r. clean_dates wall dates (Some now) max_ages = (sort dates, Inr r)
     \<and> set r = (\<Union>a \<in> set max_ages. earliest (set (qualifying now a dates)))
                 \<union> set (newest5 (sort dates))"
    using clean_dates_set[OF assms, of wall "Some now" max_ages]
    by (auto simp: effective_now_def Q)
  then obtain r where r: "clean_dates wall dates (Some now) max_ages = (sort dates, Inr r)"
    "set r = (\<Union>a \<in> set max_ages. earliest (set (qualifying now a dates)))
                 \<union> set (newest5 (sort dates))"
    by blast
  have "(qualifying now a dates = [] \<and> earliest (set (qualifying now a dates)) = {})
           \<or> (\<exists>m \<in> set (qualifying now a dates).
                 earliest (set (qualifying now a dates)) = {m}
                 \<and> (\<forall>q \<in> set (qualifying now a dates). stamp m \<le> stamp q)
                 \<and> m \<in> set r)" if a: "a \<in> set max_ages" for a
  proof (cases "qualifying now a dates = []")
    case True
    then show ?thesis by (simp add: earliest_def)
  next
    case False
    then have "qualifying now a (sort dates) \<noteq> []"
      unfolding qualifying_def by (auto simp: filter_empty_conv)
    then obtain m rest where m: "qualifying now a (sort dates) = m # rest"
      by (cases "qualifying now a (sort dates)") auto
    have e: "earliest (set (qualifying now a dates)) = {m}"
      unfolding earliest_qualifying[OF assms] m by simp
    then have "m \<in> earliest (set (qualifying now a dates))" by simp
    then have "m \<in> set (qualifying now a dates)"
      "\<forall>q \<in> set (qualifying now a dates). stamp m \<le> stamp q"
      unfolding earliest_def by auto
    moreover have "m \<in> set r" unfolding r(2) using e a by auto
    ultimately show ?thesis using e by blast
  qed
  then show ?thesis using r spec_age_agrees[of _ now] by blast
qed

theorem bucket_representatives_witness:
  "\<exists>r. clean_dates scenario_now scenario_ids (Some scenario_now) [2, 14, 60]
          = (sort scenario_ids, Inr r)
     \<and> set r = (\<Union>a \<in> set [2, 14, 60]. earliest (set (qualifying scenario_now a scenario_ids)))
                 \<union> set (newest5 (sort scenario_ids))"
proof -
  have wf: "\<forall>d \<in> set scenario_ids. well_formed d" by code_simp
  show ?thesis
    using bucket_representatives[OF wf, of scenario_now scenario_now "[2, 14, 60]"] by blast
qed

theorem truncated_age_counterexample:
  "spec_qualifying scenario_now 0 future_ids = []
   \<and> snd (clean_dates scenario_now future_ids (Some scenario_now) [0]) = Inr future_ids
   \<and> snd (clean_dates scenario_now future_ids (Some scenario_now) []) = Inr (tl future_ids)
   \<and> list_all well_formed future_ids"
  by code_simp

text \<open>C3. On a duplicate-free list of well-formed identifiers the call raises nothing and
  its result contains the five chronologically latest identifiers (those with fewer
  than five later ones, of which there are \<open>min 5 n\<close>); with fewer than five
  identifiers the result contains them all. This holds for every \<open>now\<close>, given or not,
  and every \<open>max_ages\<close>.\<close>

theorem recent_preservation:
  assumes "\<forall>d \<in> set dates. well_formed d" and "distinct dates"
  shows "\<exists>r. snd (clean_dates wall dates now max_ages) = Inr r
     \<and> latest 5 (set dates) \<subseteq> set r
     \<and> card (latest 5 (set dates)) = min 5 (length dates)
     \<and> (length dates < 5 \<longrightarrow> set dates \<subseteq> set r)"
proof -
  from clean_dates_set[OF assms(1), of wall now max_ages]
  obtain r where r: "clean_dates wall dates now max_ages = (sort dates, Inr r)"
    "set (newest5 (sort dates)) \<subseteq> set r" by auto
  have l: "latest 5 (set dates) = set (newest5 (sort dates))"
    using assms by (rule latest_newest5)
  have c: "card (latest 5 (set dates)) = min 5 (length dates)"
    unfolding l using distinct_card[OF distinct_newest5[of "sort dates"]] assms(2)
    by (simp add: length_newest5)
  have "set (newest5 (sort dates)) = set dates" if "length dates < 5"
    using that unfolding newest5_def by simp
  then show ?thesis using r l c by auto
qed

theorem recent_preservation_witness:
  "\<exists>r. snd (clean_dates scenario_now scenario_ids (Some scenario_now) [2, 14, 60]) = Inr r
     \<and> latest 5 (set scenario_ids) \<subseteq> set r
     \<and> card (latest 5 (set scenario_ids)) = 5"
proof -
  have wf: "\<forall>d \<in> set scenario_ids. well_formed d" by code_simp
  have d: "distinct scenario_ids" by code_simp
  have n: "length scenario_ids = 8" by (simp add: scenario_ids_def)
  show ?thesis
    using recent_preservation[OF wf d, of scenario_now "Some scenario_now" "[2, 14, 60]"]
    unfolding n by auto
qed

text \<open>C4. On well-formed identifiers, two lists of thresholds that are permutations of
  each other (with the same multiplicities, whatever the order and the repetitions)
  give the same result.\<close>

theorem max_ages_order_irrelevant:
  assumes "\<forall>d \<in> set dates. well_formed d" and "mset max_ages = mset max_ages'"
  shows "clean_dates wall dates now max_ages = clean_dates wall dates now max_ages'"
  using assms(1) mset_eq_setD[OF assms(2)] by (rule clean_dates_perm)

theorem max_ages_order_irrelevant_witness:
  "clean_dates scenario_now scenario_ids (Some scenario_now) [2, 14, 2, 60]
   = clean_dates scenario_now scenario_ids (Some scenario_now) [60, 2, 2, 14]"
proof -
  have wf: "\<forall>d \<in> set scenario_ids. well_formed d" by code_simp
  have p: "mset [2, 14, 2, 60] = mset [60, 2, 2, 14::int]" by simp
  show ?thesis using wf p by (rule max_ages_order_irrelevant)
qed

text \<open>C7. On a duplicate-free list of well-formed identifiers the result is a duplicate-free
  list of input identifiers with at most \<open>length max_ages + 5\<close> and at least
  \<open>min 5 n\<close> elements. Hence in a simulation that starts from such a list and at each
  step appends one new identifier and replaces the list by the result of the call, the
  list after any number of steps is duplicate-free, made of identifiers created so far,
  has at most \<open>length max_ages + 5\<close> elements once a step was made, and at least
  \<open>min 5\<close> of the number of identifiers created so far.\<close>

theorem retained_size_bounds:
  assumes "\<forall>d \<in> set (dates @ map fst steps). well_formed d"
    and "distinct (dates @ map fst steps)"
  shows "(\<exists>r. snd (clean_dates wall dates now max_ages) = Inr r
            \<and> set r \<subseteq> set dates \<and> distinct r
            \<and> length r \<le> length max_ages + 5 \<and> min 5 (length dates) \<le> length r)
     \<and> (\<exists>r. simulate wall dates max_ages steps = Inr r
            \<and> set r \<subseteq> set dates \<union> fst ` set steps \<and> distinct r
            \<and> (steps \<noteq> [] \<longrightarrow> length r \<le> length max_ages + 5)
            \<and> min 5 (length dates + length steps) \<le> length r)"
proof
  have wf: "\<forall>d \<in> set dates. well_formed d" and d: "distinct dates" using assms by auto
  from clean_dates_bounds[OF wf d, of wall now max_ages]
  show "\<exists>r. snd (clean_dates wall dates now max_ages) = Inr r
            \<and> set r \<subseteq> set dates \<and> distinct r
            \<and> length r \<le> length max_ages + 5 \<and> min 5 (length dates) \<le> length r"
    by blast
  show "\<exists>r. simulate wall dates max_ages steps = Inr r
            \<and> set r \<subseteq> set dates \<union> fst ` set steps \<and> distinct r
            \<and> (steps \<noteq> [] \<longrightarrow> length r \<le> length max_ages + 5)
            \<and> min 5 (length dates + length steps) \<le> length r"
    using assms by (rule simulate_bounds)
qed

theorem retained_size_bounds_witness:
  "(\<exists>r. snd (clean_dates scenario_now scenario_ids (Some scenario_now) [2, 14, 60]) = Inr r
        \<and> length r \<le> 8 \<and> 5 \<le> length r)
   \<and> (\<exists>r. simulate scenario_now scenario_ids [2, 14, 60] scenario_steps = Inr r
        \<and> length r \<le> 8 \<and> 5 \<le> length r)"
proof -
  have wf: "\<forall>d \<in> set (scenario_ids @ map fst scenario_steps). well_formed d" by code_simp
  have d: "distinct (scenario_ids @ map fst scenario_steps)" by code_simp
  have n: "length scenario_ids = 8" "scenario_steps \<noteq> []" "length scenario_steps = 3"
    by (simp_all add: scenario_ids_def scenario_steps_def)
  show ?thesis
    using retained_size_bounds[OF wf d, of scenario_now "Some scenario_now" "[2, 14, 60]"] n
    by auto
qed

section \<open>The claims about \<^verbatim>\<open>run_backup\<close>\<close>

text \<open>C8. When \<^verbatim>\<open>create_backup\<close> raises, \<^verbatim>\<open>run_backup\<close> does nothing but log the failure: the
  destination is as the failed attempt left it, every entry that was there before the
  run is still there, and no removal happens.\<close>

theorem failed_backup_deletes_nothing:
  assumes "fst (create_backup w) = Some e"
  shows "entries (run_backup max_ages w) = entries (snd (create_backup w))
     \<and> set (entries w) \<subseteq> set (entries (run_backup max_ages w))
     \<and> log (run_backup max_ages w) = log w @ [Backup_failed e]"
proof -
  obtain w1 where c: "create_backup w = (Some e, w1)"
    using assms by (cases "create_backup w") auto
  have r: "run_backup max_ages w = logging (Backup_failed e) w1"
    unfolding run_backup_def c by simp
  have w1: "w1 = snd (create_backup w)" using c by simp
  show ?thesis
    unfolding r logging_def using create_backup_keeps[of w] create_backup_log[of w]
    unfolding w1 by simp
qed

theorem failed_backup_deletes_nothing_witness:
  "entries (run_backup ''2'' (scenario_world\<lparr>src := SrcMissing\<rparr>)) = entries scenario_world
   \<and> log (run_backup ''2'' (scenario_world\<lparr>src := SrcMissing\<rparr>))
       = [Backup_failed FileNotFoundError]"
proof -
  have f: "fst (create_backup (scenario_world\<lparr>src := SrcMissing\<rparr>)) = Some FileNotFoundError"
    by code_simp
  have e: "entries (snd (create_backup (scenario_world\<lparr>src := SrcMissing\<rparr>)))
      = entries scenario_world"
    by code_simp
  have l: "log (scenario_world\<lparr>src := SrcMissing\<rparr>) = []"
    by (simp add: scenario_world_def)
  show ?thesis
    using failed_backup_deletes_nothing[OF f, of "''2''"] unfolding e l by simp
qed

text \<open>C9, as the code has it. The removal loop runs inside the one \<^verbatim>\<open>try\<close> of the run, and
  \<^verbatim>\<open>clean_dates\<close> has sorted the names, so the loop visits them in ascending order. When
  the removal of a snapshot that is not retained fails, the exception is caught by the
  handler of the whole run and logged once; the snapshots not retained that come
  before it in ascending order have been removed, and every snapshot after it, retained
  or not, is still there when the run ends. The claim that the remaining ones are still
  deleted fails: with one held snapshot, a later one that a run without failure removes
  survives.\<close>

theorem removal_stops_at_first_failure:
  assumes c: "create_backup w = (None, w1)"
    and n: "distinct (map fst (entries w1))"
    and p: "parse_ages (split_comma max_ages) = Inr ages"
    and k: "clean_dates (clock w1 (reads w1)) (map fst (filter snd (entries w1))) None ages
            = (backups, Inr to_keep)"
    and b: "backups = before @ stuck # rest"
    and s: "stuck \<notin> set to_keep" "stuck \<in> set (held w1)"
    and f: "\<forall>b \<in> set before. b \<notin> set to_keep \<longrightarrow> b \<notin> set (held w1)"
  shows "entries (run_backup max_ages w)
         = filter (\<lambda>(name, _). name \<in> set to_keep \<or> name \<notin> set before) (entries w1)
     \<and> log (run_backup max_ages w)
         = log w1 @ [Backup_created]
             @ map Removed_old_backup (filter (\<lambda>b. b \<notin> set to_keep) before)
             @ [Backup_failed OSError]
     \<and> (\<forall>b \<in> set rest. (b, True) \<in> set (entries (run_backup max_ages w)))"
proof -
  define w3 where "w3 = (logging Backup_created w1)\<lparr>reads := Suc (reads w1)\<rparr>"
  have w3: "entries w3 = entries w1" "held w3 = held w1" "log w3 = log w1 @ [Backup_created]"
    unfolding w3_def logging_def by simp_all
  have bs: "backups = sort (map fst (filter snd (entries w1)))"
    using fst_clean_dates[of "clock w1 (reads w1)" "map fst (filter snd (entries w1))" None ages]
    unfolding k by simp
  have dist: "distinct backups"
    unfolding bs using n by (simp add: distinct_map_filter)
  have dirs: "(x, True) \<in> set (entries w1)" if "x \<in> set backups" for x
    using that unfolding bs by auto
  have names: "x \<in> fst ` set (entries w3)" if "x \<in> set backups" for x
    using dirs[OF that] unfolding w3(1) by force
  have stuck: "remove_old backups to_keep w3 =
     (Some OSError,
      w3\<lparr>entries := filter (\<lambda>(name, _). name \<in> set to_keep \<or> name \<notin> set before) (entries w3),
         log := log w3 @ map Removed_old_backup (filter (\<lambda>b. b \<notin> set to_keep) before)\<rparr>)"
    unfolding b
  proof (rule remove_old_stuck)
    show "stuck \<notin> set to_keep" using s(1) .
    show "stuck \<in> set (held w3)" using s(2) unfolding w3(2) .
    show "stuck \<in> fst ` set (entries w3)" using names unfolding b by simp
    show "\<forall>b \<in> set before. b \<notin> set to_keep \<longrightarrow> b \<notin> set (held w3) \<and> b \<in> fst ` set (entries w3)"
      using f names unfolding w3(2) b by simp
    show "distinct (before @ [stuck])" using dist unfolding b by simp
  qed
  have run: "run_backup max_ages w = logging (Backup_failed OSError)
      (w3\<lparr>entries := filter (\<lambda>(name, _). name \<in> set to_keep \<or> name \<notin> set before) (entries w3),
         log := log w3 @ map Removed_old_backup (filter (\<lambda>b. b \<notin> set to_keep) before)\<rparr>)"
    unfolding run_backup_def c using p k stuck
    by (simp add: Let_def datetime_now_def logging_def w3_def)
  have e: "entries (run_backup max_ages w)
         = filter (\<lambda>(name, _). name \<in> set to_keep \<or> name \<notin> set before) (entries w1)"
    unfolding run logging_def using w3(1) by simp
  have l: "log (run_backup max_ages w)
         = log w1 @ [Backup_created]
             @ map Removed_old_backup (filter (\<lambda>b. b \<notin> set to_keep) before)
             @ [Backup_failed OSError]"
    unfolding run logging_def using w3(3) by simp
  have "(x, True) \<in> set (entries (run_backup max_ages w))" if "x \<in> set rest" for x
  proof -
    have "x \<in> set backups" "x \<notin> set before" using that dist unfolding b by auto
    then show ?thesis unfolding e using dirs by auto
  qed
  then show ?thesis using e l by blast
qed

theorem removal_stops_at_first_failure_witness:
  "entries (run_backup ''2'' scenario_world)
     = [(''20240103_000000'', True), (''20240102_000000'', True), (''20240104_000000'', True),
        (''20240105_000000'', True), (''20240106_000000'', True), (''20240107_000000'', True),
        (''notes.txt'', False), (''20241115_140322'', True)]
   \<and> log (run_backup ''2'' scenario_world)
     = [Backup_created, Removed_old_backup ''20240101_000000'', Backup_failed OSError]"
proof -
  define w1 where "w1 = snd (create_backup scenario_world)"
  have "fst (create_backup scenario_world) = None" by code_simp
  then have c: "create_backup scenario_world = (None, w1)"
    unfolding w1_def by (simp add: prod_eq_iff)
  have e1: "entries w1 = entries scenario_world @ [(''20241115_140322'', True)]"
    unfolding w1_def by code_simp
  have h1: "held w1 = [''20240102_000000'']" unfolding w1_def by code_simp
  have l1: "log w1 = []" unfolding w1_def by code_simp
  have t1: "clock w1 (reads w1) = scenario_now" unfolding w1_def by code_simp
  have n: "distinct (map fst (entries w1))" unfolding e1 by code_simp
  have p: "parse_ages (split_comma ''2'') = Inr [2]" by code_simp
  have k: "clean_dates (clock w1 (reads w1)) (map fst (filter snd (entries w1))) None [2]
      = ([''20240101_000000''] @ ''20240102_000000'' #
           [''20240103_000000'', ''20240104_000000'', ''20240105_000000'', ''20240106_000000'',
            ''20240107_000000'', ''20241115_140322''],
         Inr [''20240104_000000'', ''20240105_000000'', ''20240106_000000'', ''20240107_000000'',
              ''20241115_140322''])"
    unfolding e1 t1 by code_simp
  have s: "''20240102_000000'' \<notin> set [''20240104_000000'', ''20240105_000000'',
      ''20240106_000000'', ''20240107_000000'', ''20241115_140322'']"
    "''20240102_000000'' \<in> set (held w1)" unfolding h1 by simp_all
  have f: "\<forall>b \<in> set [''20240101_000000'']. b \<notin> set [''20240104_000000'', ''20240105_000000'',
      ''20240106_000000'', ''20240107_000000'', ''20241115_140322''] \<longrightarrow> b \<notin> set (held w1)"
    unfolding h1 by simp
  show ?thesis
    using removal_stops_at_first_failure[OF c n p k refl s f]
    unfolding e1 l1 by (simp add: scenario_world_def)
qed

theorem failed_removal_counterexample:
  "entries (run_backup ''2'' scenario_world)
     = [(''20240103_000000'', True), (''20240102_000000'', True), (''20240104_000000'', True),
        (''20240105_000000'', True), (''20240106_000000'', True), (''20240107_000000'', True),
        (''notes.txt'', False), (''20241115_140322'', True)]
   \<and> entries (run_backup ''2'' (scenario_world\<lparr>held := []\<rparr>))
     = [(''20240104_000000'', True), (''20240105_000000'', True), (''20240106_000000'', True),
        (''20240107_000000'', True), (''notes.txt'', False), (''20241115_140322'', True)]"
  by code_simp

end
